theory Spec2Isabelle
  imports Main "HOL-Library.List_Lexorder" "HOL-Library.Char_ord" "HOL-Library.Word"
begin

section \<open>Errors and basic types\<close>

text \<open>
  Every way in which a planner function can fail to return a value normally is a value of
  \<open>error\<close>: a Go \<open>panic\<close>, a \<open>log.Fatalf\<close>, the \<open>queryNotSupportedError\<close> of the support
  check, and the errors handed up from the external collaborators (range iterator,
  \<open>keys.Addr\<close>, aggregate type inference).
\<close>

datatype error =
    Panic string
  | Fatal string
  | QueryNotSupported string
  | Err string

text \<open>
  \<open>roachpb.NodeID\<close> is an \<open>int32\<close> that the planner only compares and uses as a map key;
  the value \<open>0\<close> is the zero value of the type. \<open>roachpb.Key\<close> and \<open>roachpb.RKey\<close> are byte
  strings compared with \<open>bytes.Compare\<close>, which is the lexicographic order on \<open>string\<close>.
\<close>

type_synonym NodeID = nat
type_synonym Key = string
type_synonym DistSQLVersion = nat

record Span =
  Key :: Key
  EndKey :: Key

record RangeDescriptor =
  desc_StartKey :: Key
  desc_EndKey :: Key

record NodeDescriptor =
  NodeID :: NodeID
  Address :: string

text \<open>
  One position of the \<open>SpanResolverIterator\<close>: what \<open>it.ReplicaInfo\<close> and \<open>it.Desc\<close> return
  while \<open>it.Valid()\<close> holds. A seek yields the list of positions the iterator goes through
  and the error \<open>it.Error()\<close> it reports once it is no longer valid.
\<close>

record RangeItem =
  ReplicaInfo :: "error + NodeDescriptor"
  Desc :: RangeDescriptor

datatype ConnErr = ErrNotConnected | ErrNotHeartbeated | ErrOther string

record DistSQLVersionGossipInfo =
  MinAcceptedVersion :: DistSQLVersion
  Version :: DistSQLVersion

text \<open>
  The fields of \<open>distSQLPlanner\<close> that planning reads, with the external services as
  functions: \<open>gossipNodeIDAddress n\<close> holds when \<open>gossip.GetNodeIDAddress\<close> returns no
  error, \<open>connHealth\<close> is \<open>rpcContext.ConnHealth\<close> (or the testing override), \<open>gossipVersion\<close>
  is \<open>gossip.GetInfoProto\<close> on the node's version key, \<open>keysAddr\<close> is \<open>keys.Addr\<close>, and the
  two booleans are the cluster settings \<open>sql.distsql.distribute_index_joins\<close> and
  \<open>sql.distsql.merge_joins.enabled\<close>.
\<close>

record distSQLPlanner =
  planVersion :: DistSQLVersion
  nodeDesc :: NodeDescriptor
  gossipNodeIDAddress :: "NodeID \<Rightarrow> bool"
  connHealth :: "NodeID \<Rightarrow> string \<Rightarrow> ConnErr option"
  gossipVersion :: "NodeID \<Rightarrow> DistSQLVersionGossipInfo option"
  keysAddr :: "Key \<Rightarrow> error + Key"
  distributeIndexJoin :: bool
  planMergeJoins :: bool

record planningCtx =
  spanIter :: "Span \<Rightarrow> RangeItem list \<times> error"
  nodeAddresses :: "NodeID \<rightharpoonup> string"

record spanPartition =
  node :: NodeID
  spans :: "Span list"

section \<open>The span partitioner\<close>

text \<open>
  Modelled from the spec: \<open>RangeDescriptor.ContainsKey\<close> (package \<open>roachpb\<close>) is not part of
  the sources; a range covers the keys from its start key up to, not including, its end key.
\<close>

definition ContainsKey :: "RangeDescriptor \<Rightarrow> Key \<Rightarrow> bool" where
  "ContainsKey desc k \<longleftrightarrow> desc_StartKey desc \<le> k \<and> k < desc_EndKey desc"

text \<open>
  Modelled from the spec: \<open>distsqlrun.FlowVerIsCompatible\<close> is not part of the sources; the
  plan version must lie within the window from the node's min-accepted version to its
  current version.
\<close>

definition FlowVerIsCompatible ::
    "DistSQLVersion \<Rightarrow> DistSQLVersion \<Rightarrow> DistSQLVersion \<Rightarrow> bool" where
  "FlowVerIsCompatible flowVer minAccepted serverVer \<longleftrightarrow>
     minAccepted \<le> flowVer \<and> flowVer \<le> serverVer"

definition nodeVersionIsCompatible :: "distSQLPlanner \<Rightarrow> NodeID \<Rightarrow> DistSQLVersion \<Rightarrow> bool" where
  "nodeVersionIsCompatible dsp nodeID planVer =
     (case gossipVersion dsp nodeID of
        None \<Rightarrow> False
      | Some v \<Rightarrow> FlowVerIsCompatible (planVersion dsp) (MinAcceptedVersion v) (Version v))"

text \<open>The closure \<open>checkNodeHealth\<close>; the result is \<open>True\<close> when it returns \<open>nil\<close>.\<close>

definition checkNodeHealth :: "distSQLPlanner \<Rightarrow> NodeID \<Rightarrow> string \<Rightarrow> bool" where
  "checkNodeHealth dsp nodeID addr =
     (if \<not> gossipNodeIDAddress dsp nodeID then False
      else case connHealth dsp nodeID addr of
             None \<Rightarrow> True
           | Some err \<Rightarrow> err = ErrNotConnected \<or> err = ErrNotHeartbeated)"

text \<open>The local state of \<open>partitionSpans\<close>, with the address map of the planning context.\<close>

record partState =
  partitions :: "spanPartition list"
  nodeMap :: "NodeID \<rightharpoonup> nat"
  nodeVerCompatMap :: "NodeID \<rightharpoonup> bool"
  nodeAddrs :: "NodeID \<rightharpoonup> string"

text \<open>
  The address of a node seen for the first time: the cached one when the planning context
  has it, otherwise the replica's address if the health check passes and the empty string
  if it fails. A non-empty new address is stored in the context.
\<close>

definition lookupAddr :: "distSQLPlanner \<Rightarrow> NodeDescriptor \<Rightarrow> partState \<Rightarrow> string \<times> partState" where
  "lookupAddr dsp nd st =
     (case nodeAddrs st (NodeID nd) of
        Some a \<Rightarrow> (a, st)
      | None \<Rightarrow>
          (let addr = (if checkNodeHealth dsp (NodeID nd) (Address nd) then Address nd else '''')
           in (addr, if addr \<noteq> '''' then st\<lparr>nodeAddrs := (nodeAddrs st)(NodeID nd \<mapsto> addr)\<rparr>
                      else st)))"

text \<open>The version check, done only for a non-empty address and cached per node.\<close>

definition lookupCompat :: "distSQLPlanner \<Rightarrow> NodeID \<Rightarrow> string \<Rightarrow> partState \<Rightarrow> bool \<times> partState" where
  "lookupCompat dsp nodeID addr st =
     (if addr \<noteq> '''' then
        (case nodeVerCompatMap st nodeID of
           Some c \<Rightarrow> (c, st)
         | None \<Rightarrow>
             (let c = nodeVersionIsCompatible dsp nodeID (planVersion dsp)
              in (c, st\<lparr>nodeVerCompatMap := (nodeVerCompatMap st)(nodeID \<mapsto> c)\<rparr>)))
      else (True, st))"

text \<open>
  The choice of the node and of its partition index for one range: a node already in
  \<open>nodeMap\<close> is used as it is; a new node is replaced by the gateway when its address is
  empty or its version incompatible; a node without a partition gets a new, empty one.
\<close>

definition chooseNode :: "distSQLPlanner \<Rightarrow> NodeDescriptor \<Rightarrow> partState \<Rightarrow> NodeID \<times> nat \<times> partState" where
  "chooseNode dsp nd st =
     (case nodeMap st (NodeID nd) of
        Some partitionIdx \<Rightarrow> (NodeID nd, partitionIdx, st)
      | None \<Rightarrow>
          (let (addr, st1) = lookupAddr dsp nd st;
               (compat, st2) = lookupCompat dsp (NodeID nd) addr st1;
               nodeID = (if addr = '''' \<or> \<not> compat then NodeID (nodeDesc dsp) else NodeID nd);
               inNodeMap = (if addr = '''' \<or> \<not> compat then nodeMap st2 nodeID else None)
           in case inNodeMap of
                Some partitionIdx \<Rightarrow> (nodeID, partitionIdx, st2)
              | None \<Rightarrow>
                  (nodeID, length (partitions st2),
                   st2\<lparr>partitions := partitions st2 @ [\<lparr>node = nodeID, spans = []\<rparr>],
                       nodeMap := (nodeMap st2)(nodeID \<mapsto> length (partitions st2))\<rparr>)))"

text \<open>
  Adding the piece \<open>[lastKey, endKey)\<close> to the chosen partition: the last span of the
  partition is extended when the previous range went to the same node, otherwise a span
  is appended. Indexing outside \<open>partitions\<close> or into an empty span list panics in Go.
\<close>

definition addPiece :: "nat \<Rightarrow> bool \<Rightarrow> Key \<Rightarrow> Key \<Rightarrow> partState \<Rightarrow> error + partState" where
  "addPiece partitionIdx sameNode lastKey endKey st =
     (if partitionIdx \<ge> length (partitions st) then Inl (Panic ''index out of range'')
      else
        (let partition = partitions st ! partitionIdx in
         if sameNode then
           (if spans partition = [] then Inl (Panic ''index out of range'')
            else Inr (st\<lparr>partitions := (partitions st)[partitionIdx :=
                   partition\<lparr>spans := (spans partition)[length (spans partition) - 1 :=
                     (last (spans partition))\<lparr>EndKey := endKey\<rparr>]\<rparr>]\<rparr>))
         else
           Inr (st\<lparr>partitions := (partitions st)[partitionIdx :=
                  partition\<lparr>spans := spans partition @ [\<lparr>Key = lastKey, EndKey = endKey\<rparr>]\<rparr>]\<rparr>)))"

text \<open>
  The body of the inner loop for one range: the replica lookup, the check that the range
  covers \<open>lastKey\<close>, the clipping of the end key to the span, the choice of the node and
  the addition of the piece. It returns the node, the clipped end key and the new state.
\<close>

definition rangeStep ::
    "distSQLPlanner \<Rightarrow> Span \<Rightarrow> RangeItem \<Rightarrow> NodeID \<Rightarrow> Key \<Rightarrow> partState
       \<Rightarrow> error + (NodeID \<times> Key \<times> partState)" where
  "rangeStep dsp rspan it lastNodeID lastKey st =
     (case ReplicaInfo it of
        Inl err \<Rightarrow> Inl err
      | Inr replInfo \<Rightarrow>
          if \<not> ContainsKey (Desc it) lastKey
          then Inl (Fatal ''next range doesn't cover last end key'')
          else
            (let endKey = (if EndKey rspan < desc_EndKey (Desc it) then EndKey rspan
                           else desc_EndKey (Desc it));
                 (nodeID, partitionIdx, st1) = chooseNode dsp replInfo st
             in case addPiece partitionIdx (lastNodeID = nodeID) lastKey endKey st1 of
                  Inl err \<Rightarrow> Inl err
                | Inr st2 \<Rightarrow> Inr (nodeID, endKey, st2)))"

text \<open>
  The inner loop over the ranges of one span, \<open>for it.Seek(...); ; it.Next(ctx)\<close>. The list
  holds the positions the iterator still has; when it is used up the iterator is invalid
  and its error \<open>itErr\<close> is returned. The loop ends when the clipped end key reaches the
  end of the span.
\<close>

fun rangeLoop ::
    "distSQLPlanner \<Rightarrow> Span \<Rightarrow> error \<Rightarrow> RangeItem list \<Rightarrow> NodeID \<Rightarrow> Key \<Rightarrow> partState
       \<Rightarrow> error + partState" where
  "rangeLoop dsp rspan itErr [] lastNodeID lastKey st = Inl itErr"
| "rangeLoop dsp rspan itErr (it # its) lastNodeID lastKey st =
     (case rangeStep dsp rspan it lastNodeID lastKey st of
        Inl err \<Rightarrow> Inl err
      | Inr (nodeID, endKey, st2) \<Rightarrow>
          if \<not> endKey < EndKey rspan then Inr st2
          else rangeLoop dsp rspan itErr its nodeID endKey st2)"

text \<open>The outer loop \<open>for _, span := range spans\<close>.\<close>

fun spanLoop ::
    "distSQLPlanner \<Rightarrow> (Span \<Rightarrow> RangeItem list \<times> error) \<Rightarrow> Span list \<Rightarrow> partState
       \<Rightarrow> error + partState" where
  "spanLoop dsp it [] st = Inr st"
| "spanLoop dsp it (span # rest) st =
     (case keysAddr dsp (Key span) of
        Inl err \<Rightarrow> Inl err
      | Inr k \<Rightarrow>
          (case keysAddr dsp (EndKey span) of
             Inl err \<Rightarrow> Inl err
           | Inr ek \<Rightarrow>
               (case rangeLoop dsp \<lparr>Key = k, EndKey = ek\<rparr> (snd (it span)) (fst (it span)) 0 k st of
                  Inl err \<Rightarrow> Inl err
                | Inr st' \<Rightarrow> spanLoop dsp it rest st')))"

text \<open>
  \<open>partitionSpans\<close> returns the partitions; the address map of the planning context is
  updated in place, so the model returns the new context as well.
\<close>

definition partitionSpans ::
    "distSQLPlanner \<Rightarrow> planningCtx \<Rightarrow> Span list \<Rightarrow> error + (spanPartition list \<times> planningCtx)" where
  "partitionSpans dsp planCtx spns =
     (if length spns = 0 then Inl (Panic ''no spans'')
      else
        (case spanLoop dsp (spanIter planCtx) spns
                \<lparr>partitions = [], nodeMap = Map.empty, nodeVerCompatMap = Map.empty,
                 nodeAddrs = nodeAddresses planCtx\<rparr> of
           Inl err \<Rightarrow> Inl err
         | Inr st \<Rightarrow> Inr (partitions st, planCtx\<lparr>nodeAddresses := nodeAddrs st\<rparr>)))"

definition keysOf :: "Span \<Rightarrow> Key set" where
  "keysOf s = {k. Key s \<le> k \<and> k < EndKey s}"

definition allSpans :: "spanPartition list \<Rightarrow> Span list" where
  "allSpans ps = concat (map spans ps)"

definition nonOverlapping :: "Span list \<Rightarrow> bool" where
  "nonOverlapping ss \<longleftrightarrow> (\<forall>i j. i < j \<and> j < length ss \<longrightarrow> keysOf (ss ! i) \<inter> keysOf (ss ! j) = {})"

definition ascending :: "Span list \<Rightarrow> bool" where
  "ascending ss \<longleftrightarrow> (\<forall>i j. i < j \<and> j < length ss \<longrightarrow> EndKey (ss ! i) \<le> Key (ss ! j))"

definition cover :: "Key \<Rightarrow> Span list \<Rightarrow> nat" where
  "cover k ss = length (filter (\<lambda>s. k \<in> keysOf s) ss)"

definition mapInv :: "partState \<Rightarrow> bool" where
  "mapInv st \<longleftrightarrow>
     (\<forall>n i. nodeMap st n = Some i \<longrightarrow> i < length (partitions st) \<and> node (partitions st ! i) = n)"

definition linked :: "partState \<Rightarrow> NodeID \<Rightarrow> Key \<Rightarrow> bool" where
  "linked st n lk \<longleftrightarrow>
     (\<exists>i. nodeMap st n = Some i \<and> i < length (partitions st) \<and>
          spans (partitions st ! i) \<noteq> [] \<and>
          EndKey (last (spans (partitions st ! i))) = lk \<and>
          Key (last (spans (partitions st ! i))) \<le> lk)"

definition validNodeIDs :: "distSQLPlanner \<Rightarrow> planningCtx \<Rightarrow> Span list \<Rightarrow> bool" where
  "validNodeIDs dsp planCtx spns \<longleftrightarrow>
     NodeID (nodeDesc dsp) \<noteq> 0 \<and>
     (\<forall>s\<in>set spns. \<forall>it\<in>set (fst (spanIter planCtx s)). \<forall>nd.
        ReplicaInfo it = Inr nd \<longrightarrow> NodeID nd \<noteq> 0)"

definition globalKeys :: "distSQLPlanner \<Rightarrow> Span list \<Rightarrow> bool" where
  "globalKeys dsp spns \<longleftrightarrow>
     (\<forall>s\<in>set spns. keysAddr dsp (Key s) = Inr (Key s) \<and> keysAddr dsp (EndKey s) = Inr (EndKey s))"

definition exRange :: "NodeID \<Rightarrow> string \<Rightarrow> Key \<Rightarrow> Key \<Rightarrow> RangeItem" where
  "exRange n addr k ek =
     \<lparr>ReplicaInfo = Inr \<lparr>NodeID = n, Address = addr\<rparr>,
      Desc = \<lparr>desc_StartKey = k, desc_EndKey = ek\<rparr>\<rparr>"

definition exRanges :: "RangeItem list" where
  "exRanges = [exRange 1 ''gw'' ''a'' ''c'', exRange 2 ''n2'' ''c'' ''e'',
               exRange 3 ''n3'' ''e'' ''g'', exRange 4 ''n4'' ''g'' ''k'',
               exRange 1 ''gw'' ''k'' ''z'']"

definition exDsp :: distSQLPlanner where
  "exDsp = \<lparr>planVersion = 5, nodeDesc = \<lparr>NodeID = 1, Address = ''gw''\<rparr>,
     gossipNodeIDAddress = (\<lambda>n. True),
     connHealth = (\<lambda>n a. if n = 2 then Some (ErrOther ''connection refused'') else None),
     gossipVersion = (\<lambda>n. if n = 3 then Some \<lparr>MinAcceptedVersion = 7, Version = 9\<rparr>
                          else Some \<lparr>MinAcceptedVersion = 1, Version = 5\<rparr>),
     keysAddr = Inr, distributeIndexJoin = True, planMergeJoins = True\<rparr>"

definition exCtx :: planningCtx where
  "exCtx = \<lparr>spanIter = (\<lambda>s. (dropWhile (\<lambda>it. desc_EndKey (Desc it) \<le> Key s) exRanges,
                               Err ''end of keyspace'')),
            nodeAddresses = [1 \<mapsto> ''gw'']\<rparr>"

definition usableInv :: "distSQLPlanner \<Rightarrow> partState \<Rightarrow> bool" where
  "usableInv dsp st \<longleftrightarrow>
     (\<forall>n i. nodeMap st n = Some i \<longrightarrow>
        n = NodeID (nodeDesc dsp) \<or>
        ((\<exists>a. nodeAddrs st n = Some a \<and> a \<noteq> '''') \<and>
         nodeVersionIsCompatible dsp n (planVersion dsp))) \<and>
     (\<forall>n c. nodeVerCompatMap st n = Some c \<longrightarrow>
        c = nodeVersionIsCompatible dsp n (planVersion dsp)) \<and>
     (\<forall>i < length (partitions st). nodeMap st (node (partitions st ! i)) = Some i)"

inductive reachable :: "distSQLPlanner \<Rightarrow> planningCtx \<Rightarrow> partState \<Rightarrow> bool"
  for dsp :: distSQLPlanner and planCtx :: planningCtx where
  start: "reachable dsp planCtx
            \<lparr>partitions = [], nodeMap = Map.empty, nodeVerCompatMap = Map.empty,
             nodeAddrs = nodeAddresses planCtx\<rparr>"
| step: "reachable dsp planCtx st \<Longrightarrow>
         rangeStep dsp rspan it lastNodeID lastKey st = Inr (nodeID, endKey, st') \<Longrightarrow>
         reachable dsp planCtx st'"

definition spansOf :: "partState \<Rightarrow> NodeID \<Rightarrow> Span list" where
  "spansOf st n = (case nodeMap st n of None \<Rightarrow> [] | Some i \<Rightarrow> spans (partitions st ! i))"

definition exSpans :: "Span list" where
  "exSpans = [\<lparr>Key = ''b'', EndKey = ''d''\<rparr>, \<lparr>Key = ''k'', EndKey = ''m''\<rparr>]"

definition exUnorderedSpans :: "Span list" where
  "exUnorderedSpans = [\<lparr>Key = ''l'', EndKey = ''n''\<rparr>, \<lparr>Key = ''k'', EndKey = ''m''\<rparr>]"

text \<open>
  C10. Called with an empty span set, \<open>partitionSpans\<close> panics with \<open>no spans\<close>: it returns
  neither a partition list nor an error value, whatever the planner and the context are.
\<close>

theorem partitionSpans_empty_panics:
  "partitionSpans dsp planCtx [] = Inl (Panic ''no spans'')"
  by (simp add: partitionSpans_def)

lemma nonOverlapping_sorted_wrt:
  "nonOverlapping ss = sorted_wrt (\<lambda>a b. keysOf a \<inter> keysOf b = {}) ss"
  by (auto simp: nonOverlapping_def sorted_wrt_iff_nth_less)

lemma ascending_sorted_wrt: "ascending ss = sorted_wrt (\<lambda>a b. EndKey a \<le> Key b) ss"
  by (auto simp: ascending_def sorted_wrt_iff_nth_less)

lemma cover_Nil [simp]: "cover k [] = 0"
  by (simp add: cover_def)

lemma cover_Cons [simp]: "cover k (s # ss) = (if k \<in> keysOf s then 1 else 0) + cover k ss"
  by (simp add: cover_def)

lemma cover_append [simp]: "cover k (xs @ ys) = cover k xs + cover k ys"
  by (simp add: cover_def)

lemma cover_pos_iff: "0 < cover k ss \<longleftrightarrow> k \<in> (\<Union>s\<in>set ss. keysOf s)"
  by (induction ss) auto

lemma cover_zero_iff: "cover k ss = 0 \<longleftrightarrow> (\<forall>s\<in>set ss. k \<notin> keysOf s)"
  by (induction ss) auto

lemma nonOverlapping_cover: "nonOverlapping ss \<longleftrightarrow> (\<forall>k. cover k ss \<le> 1)"
proof (induction ss)
  case Nil
  show ?case by (simp add: nonOverlapping_sorted_wrt)
next
  case (Cons s ss)
  have "(\<forall>k. cover k (s # ss) \<le> 1) \<longleftrightarrow>
        (\<forall>k. cover k ss \<le> 1) \<and> (\<forall>k\<in>keysOf s. cover k ss = 0)"
    by (auto simp: le_Suc_eq)
  also have "\<dots> \<longleftrightarrow> nonOverlapping ss \<and> (\<forall>t\<in>set ss. keysOf s \<inter> keysOf t = {})"
    using Cons.IH by (auto simp: cover_zero_iff)
  finally show ?case by (auto simp: nonOverlapping_sorted_wrt)
qed

lemma cover_allSpans: "cover k (allSpans ps) = sum_list (map (\<lambda>p. cover k (spans p)) ps)"
  by (induction ps) (simp_all add: allSpans_def)

lemma cover_allSpans_update:
  assumes "i < length ps"
  shows "cover k (allSpans (ps[i := p])) + cover k (spans (ps ! i))
           = cover k (allSpans ps) + cover k (spans p)"
proof -
  have "sum_list (map (\<lambda>p. cover k (spans p)) ps) =
        sum_list (map (\<lambda>p. cover k (spans p)) (take i ps)) + cover k (spans (ps ! i)) +
        sum_list (map (\<lambda>p. cover k (spans p)) (drop (Suc i) ps))"
    using assms by (metis (no_types, lifting) id_take_nth_drop list.simps(9) map_append sum_list.Cons sum_list.append add.assoc)
  moreover have "ps[i := p] = take i ps @ p # drop (Suc i) ps"
    using assms by (simp add: upd_conv_take_nth_drop)
  ultimately show ?thesis by (simp add: cover_allSpans)
qed

lemma chooseNode_result:
  assumes "chooseNode dsp nd st = (n, i, st')"
  shows "(n = NodeID nd \<or> n = NodeID (nodeDesc dsp)) \<and>
         ((nodeMap st n = Some i \<and> partitions st' = partitions st \<and> nodeMap st' = nodeMap st) \<or>
          (nodeMap st n = None \<and> i = length (partitions st) \<and>
           partitions st' = partitions st @ [\<lparr>node = n, spans = []\<rparr>] \<and>
           nodeMap st' = (nodeMap st)(n \<mapsto> i)))"
  using assms
  by (auto simp: chooseNode_def lookupAddr_def lookupCompat_def Let_def
           split: option.splits prod.splits if_splits)

lemma addPiece_result:
  assumes "addPiece i same lk ek st = Inr st'"
  shows "i < length (partitions st) \<and> nodeMap st' = nodeMap st \<and>
         nodeVerCompatMap st' = nodeVerCompatMap st \<and> nodeAddrs st' = nodeAddrs st \<and>
         (same \<longrightarrow> spans (partitions st ! i) \<noteq> []) \<and>
         partitions st' = (partitions st)[i := (partitions st ! i)\<lparr>spans :=
            (if same then butlast (spans (partitions st ! i)) @
                            [(last (spans (partitions st ! i)))\<lparr>EndKey := ek\<rparr>]
             else spans (partitions st ! i) @ [\<lparr>Key = lk, EndKey = ek\<rparr>])\<rparr>]"
proof -
  have upd: "xs[length xs - Suc 0 := y] = butlast xs @ [y]" if "xs \<noteq> []" for xs :: "Span list" and y
    using that by (induction xs rule: rev_induct) (simp_all add: list_update_append)
  show ?thesis
    using assms by (auto simp: addPiece_def Let_def upd split: if_splits)
qed

lemma rangeStep_result:
  assumes "rangeStep dsp rspan it lastNodeID lastKey st = Inr (n, ek, st')"
  obtains nd i st1 where
    "ReplicaInfo it = Inr nd" "ContainsKey (Desc it) lastKey"
    "ek = (if EndKey rspan < desc_EndKey (Desc it) then EndKey rspan else desc_EndKey (Desc it))"
    "chooseNode dsp nd st = (n, i, st1)"
    "addPiece i (lastNodeID = n) lastKey ek st1 = Inr st'"
  using assms
  by (auto simp: rangeStep_def Let_def split: sum.splits if_splits prod.splits)

lemma mapInv_chooseNode:
  assumes ch: "chooseNode dsp nd st = (n, i, st1)" and inv: "mapInv st"
  shows "mapInv st1 \<and> nodeMap st1 n = Some i \<and> i < length (partitions st1) \<and>
         allSpans (partitions st1) = allSpans (partitions st) \<and>
         (\<forall>j < length (partitions st). partitions st1 ! j = partitions st ! j) \<and>
         (\<forall>m j. nodeMap st m = Some j \<longrightarrow> nodeMap st1 m = Some j) \<and>
         (nodeMap st n = None \<longrightarrow> spans (partitions st1 ! i) = [])"
proof -
  from chooseNode_result[OF ch] consider
      (old) "nodeMap st n = Some i" "partitions st1 = partitions st" "nodeMap st1 = nodeMap st"
    | (new) "nodeMap st n = None" "i = length (partitions st)"
            "partitions st1 = partitions st @ [\<lparr>node = n, spans = []\<rparr>]"
            "nodeMap st1 = (nodeMap st)(n \<mapsto> i)"
    by auto
  then show ?thesis
  proof cases
    case old
    then show ?thesis using inv by (simp add: mapInv_def)
  next
    case new
    have "mapInv st1"
      unfolding mapInv_def
    proof (intro allI impI)
      fix m j assume mj: "nodeMap st1 m = Some j"
      show "j < length (partitions st1) \<and> node (partitions st1 ! j) = m"
      proof (cases "m = n")
        case True
        then have "j = i" using mj new(4) by simp
        then show ?thesis using True new(2,3) by simp
      next
        case False
        then have "nodeMap st m = Some j" using mj new(4) by simp
        then have "j < length (partitions st) \<and> node (partitions st ! j) = m"
          using inv by (simp add: mapInv_def)
        then show ?thesis using new(3) by (simp add: nth_append)
      qed
    qed
    moreover have "\<forall>m j. nodeMap st m = Some j \<longrightarrow> nodeMap st1 m = Some j"
      using new(1,4) by auto
    ultimately show ?thesis
      using new by (simp add: allSpans_def nth_append)
  qed
qed

lemma mapInv_addPiece:
  assumes "addPiece i same lk ek st1 = Inr st'" "mapInv st1"
  shows "mapInv st'"
  using addPiece_result[OF assms(1)] assms(2)
  by (auto simp: mapInv_def nth_list_update)

lemma keysOf_extend:
  assumes "Key s \<le> EndKey s" "EndKey s \<le> ek"
  shows "(k \<in> keysOf (s\<lparr>EndKey := ek\<rparr>)) \<longleftrightarrow> (k \<in> keysOf s \<or> (EndKey s \<le> k \<and> k < ek))"
  using assms by (auto simp: keysOf_def)

lemma cover_extend_last:
  assumes "ss \<noteq> []" "Key (last ss) \<le> EndKey (last ss)" "EndKey (last ss) \<le> ek"
  shows "cover k (butlast ss @ [(last ss)\<lparr>EndKey := ek\<rparr>]) =
         cover k ss + (if EndKey (last ss) \<le> k \<and> k < ek then 1 else 0)"
proof -
  have "cover k ss = cover k (butlast ss @ [last ss])"
    using assms(1) by simp
  also have "\<dots> = cover k (butlast ss) + (if k \<in> keysOf (last ss) then 1 else 0)"
    by simp
  finally have old: "cover k ss = cover k (butlast ss) + (if k \<in> keysOf (last ss) then 1 else 0)" .
  have disj: "\<not> (k \<in> keysOf (last ss) \<and> EndKey (last ss) \<le> k)"
    by (auto simp: keysOf_def)
  show ?thesis
    using disj by (simp add: old keysOf_extend[OF assms(2,3)])
qed

lemma rangeStep_cover:
  assumes step: "rangeStep dsp rspan it lastNodeID lastKey st = Inr (n, ek, st')"
      and inv: "mapInv st"
      and nz: "n \<noteq> 0"
      and lnk: "lastNodeID = 0 \<or> (linked st lastNodeID lastKey \<and> lastKey < EndKey rspan)"
  shows "mapInv st' \<and>
         cover k (allSpans (partitions st')) =
           cover k (allSpans (partitions st)) + (if lastKey \<le> k \<and> k < ek then 1 else 0) \<and>
         (ek < EndKey rspan \<longrightarrow> linked st' n ek)"
proof -
  from step obtain nd i st1 where
    ck: "ContainsKey (Desc it) lastKey" and
    ek: "ek = (if EndKey rspan < desc_EndKey (Desc it) then EndKey rspan else desc_EndKey (Desc it))" and
    ch: "chooseNode dsp nd st = (n, i, st1)" and
    ap: "addPiece i (lastNodeID = n) lastKey ek st1 = Inr st'"
    by (rule rangeStep_result)
  note c1 = mapInv_chooseNode[OF ch inv]
  note a1 = addPiece_result[OF ap]
  have inv': "mapInv st'" using mapInv_addPiece[OF ap] c1 by blast
  let ?ss = "spans (partitions st1 ! i)"
  let ?new = "(if lastNodeID = n then butlast ?ss @ [(last ?ss)\<lparr>EndKey := ek\<rparr>]
               else ?ss @ [\<lparr>Key = lastKey, EndKey = ek\<rparr>])"
  have parts': "partitions st' = (partitions st1)[i := (partitions st1 ! i)\<lparr>spans := ?new\<rparr>]"
    using a1 by simp
  have ilen: "i < length (partitions st1)" using a1 by simp
  have lk_lt: "lastKey < desc_EndKey (Desc it)" using ck by (simp add: ContainsKey_def)
  have cov_new: "cover k ?new = cover k ?ss + (if lastKey \<le> k \<and> k < ek then 1 else 0)"
  proof (cases "lastNodeID = n")
    case True
    with nz lnk have l: "linked st n lastKey" and lt: "lastKey < EndKey rspan" by auto
    from l obtain j where j: "nodeMap st n = Some j" "j < length (partitions st)"
        "spans (partitions st ! j) \<noteq> []" "EndKey (last (spans (partitions st ! j))) = lastKey"
        "Key (last (spans (partitions st ! j))) \<le> lastKey"
      by (auto simp: linked_def)
    have "nodeMap st1 n = Some j" using c1 j(1) by blast
    then have ij: "i = j" using c1 by simp
    have same: "partitions st1 ! i = partitions st ! j" using c1 j(2) ij by simp
    have le: "lastKey \<le> ek" using lk_lt lt by (simp add: ek less_imp_le)
    show ?thesis
      using True cover_extend_last[of ?ss ek k] j(3,4,5) same le by simp
  next
    case False
    then show ?thesis by (simp add: keysOf_def)
  qed
  have "cover k (allSpans (partitions st')) + cover k ?ss
          = cover k (allSpans (partitions st1)) + cover k ?new"
    using cover_allSpans_update[OF ilen, of k "(partitions st1 ! i)\<lparr>spans := ?new\<rparr>"] parts'
    by simp
  then have cov: "cover k (allSpans (partitions st')) =
           cover k (allSpans (partitions st)) + (if lastKey \<le> k \<and> k < ek then 1 else 0)"
    using cov_new c1 by simp
  have lnk': "linked st' n ek" if "ek < EndKey rspan"
  proof -
    have ekd: "ek = desc_EndKey (Desc it)" using that by (simp add: ek split: if_splits)
    have nm: "nodeMap st' n = Some i" using a1 c1 by simp
    have sp: "spans (partitions st' ! i) = ?new" using parts' ilen by simp
    have "?new \<noteq> [] \<and> EndKey (last ?new) = ek \<and> Key (last ?new) \<le> ek"
    proof (cases "lastNodeID = n")
      case True
      with nz lnk have l: "linked st n lastKey" by auto
      from l obtain j where j: "nodeMap st n = Some j" "j < length (partitions st)"
        "Key (last (spans (partitions st ! j))) \<le> lastKey"
        by (auto simp: linked_def)
      have "nodeMap st1 n = Some j" using c1 j(1) by blast
      then have ij: "i = j" using c1 by simp
      have same: "partitions st1 ! i = partitions st ! j" using c1 j(2) ij by simp
      show ?thesis using True j(3) same lk_lt ekd by auto
    next
      case False
      then show ?thesis using lk_lt ekd by auto
    qed
    then show ?thesis
      using nm sp ilen parts' by (auto simp: linked_def)
  qed
  show ?thesis using inv' cov lnk' by blast
qed

lemma rangeStep_keys:
  assumes "rangeStep dsp rspan it lastNodeID lastKey st = Inr (n, ek, st')"
  shows "ek \<le> EndKey rspan \<and> (ek < EndKey rspan \<longrightarrow> lastKey < ek) \<and>
         (\<not> ek < EndKey rspan \<longrightarrow> ek = EndKey rspan) \<and>
         (\<exists>nd. ReplicaInfo it = Inr nd \<and> (n = NodeID nd \<or> n = NodeID (nodeDesc dsp)))"
proof -
  from assms obtain nd i st1 where
    ri: "ReplicaInfo it = Inr nd" and
    ck: "ContainsKey (Desc it) lastKey" and
    ek: "ek = (if EndKey rspan < desc_EndKey (Desc it) then EndKey rspan else desc_EndKey (Desc it))" and
    ch: "chooseNode dsp nd st = (n, i, st1)"
    by (rule rangeStep_result)
  have "n = NodeID nd \<or> n = NodeID (nodeDesc dsp)"
    using chooseNode_result[OF ch] by blast
  moreover have "lastKey < desc_EndKey (Desc it)"
    using ck by (simp add: ContainsKey_def)
  ultimately show ?thesis using ri ek by auto
qed

lemma rangeLoop_cover:
  assumes "rangeLoop dsp rspan itErr its lastNodeID lastKey st = Inr st'"
      and "mapInv st"
      and "NodeID (nodeDesc dsp) \<noteq> 0"
      and "\<forall>it\<in>set its. \<forall>nd. ReplicaInfo it = Inr nd \<longrightarrow> NodeID nd \<noteq> 0"
      and "lastNodeID = 0 \<or> (linked st lastNodeID lastKey \<and> lastKey < EndKey rspan)"
  shows "mapInv st' \<and>
         (\<forall>k. cover k (allSpans (partitions st')) =
               cover k (allSpans (partitions st)) +
               (if lastKey \<le> k \<and> k < EndKey rspan then 1 else 0))"
  using assms
proof (induction its arbitrary: lastNodeID lastKey st)
  case Nil
  then show ?case by simp
next
  case (Cons it its)
  from Cons.prems(1) obtain n ek st2 where
    step: "rangeStep dsp rspan it lastNodeID lastKey st = Inr (n, ek, st2)"
    by (auto split: sum.splits)
  note keys = rangeStep_keys[OF step]
  have nz: "n \<noteq> 0" using keys Cons.prems(3,4) by auto
  have st2: "mapInv st2"
    and cov2: "\<And>k. cover k (allSpans (partitions st2)) =
           cover k (allSpans (partitions st)) + (if lastKey \<le> k \<and> k < ek then 1 else 0)"
    and lnk2: "ek < EndKey rspan \<Longrightarrow> linked st2 n ek"
    using rangeStep_cover[OF step Cons.prems(2) nz Cons.prems(5)] by blast+
  show ?case
  proof (cases "ek < EndKey rspan")
    case False
    then have "st' = st2" using Cons.prems(1) step by simp
    moreover have "ek = EndKey rspan" using keys False by blast
    ultimately show ?thesis using st2 cov2 by simp
  next
    case True
    then have rec: "rangeLoop dsp rspan itErr its n ek st2 = Inr st'"
      using Cons.prems(1) step by simp
    have ids: "\<forall>it\<in>set its. \<forall>nd. ReplicaInfo it = Inr nd \<longrightarrow> NodeID nd \<noteq> 0"
      using Cons.prems(4) by simp
    have "n = 0 \<or> (linked st2 n ek \<and> ek < EndKey rspan)"
      using lnk2 True by simp
    from Cons.IH[OF rec st2 Cons.prems(3) ids this]
    have inv': "mapInv st'" and cov': "\<And>k. cover k (allSpans (partitions st')) =
        cover k (allSpans (partitions st2)) + (if ek \<le> k \<and> k < EndKey rspan then 1 else 0)"
      by blast+
    have lt: "lastKey < ek" using keys True by blast
    have "cover k (allSpans (partitions st')) =
            cover k (allSpans (partitions st)) +
            (if lastKey \<le> k \<and> k < EndKey rspan then 1 else 0)" for k
      using cov'[of k] cov2[of k] lt True by auto
    then show ?thesis using inv' by blast
  qed
qed

lemma spanLoop_cover:
  assumes "spanLoop dsp (spanIter planCtx) spns st = Inr st'"
      and "mapInv st"
      and "validNodeIDs dsp planCtx spns"
      and "globalKeys dsp spns"
  shows "mapInv st' \<and>
         (\<forall>k. cover k (allSpans (partitions st')) = cover k (allSpans (partitions st)) + cover k spns)"
  using assms
proof (induction spns arbitrary: st)
  case Nil
  then show ?case by simp
next
  case (Cons s rest)
  have ks: "keysAddr dsp (Key s) = Inr (Key s)" "keysAddr dsp (EndKey s) = Inr (EndKey s)"
    using Cons.prems(4) by (simp_all add: globalKeys_def)
  have rs: "\<lparr>Key = Key s, EndKey = EndKey s\<rparr> = s" by simp
  from Cons.prems(1) obtain st1 where
    inner: "rangeLoop dsp s (snd (spanIter planCtx s)) (fst (spanIter planCtx s)) 0 (Key s) st = Inr st1"
    and outer: "spanLoop dsp (spanIter planCtx) rest st1 = Inr st'"
    by (auto simp: ks rs split: sum.splits)
  have gw: "NodeID (nodeDesc dsp) \<noteq> 0"
    and ids: "\<forall>it\<in>set (fst (spanIter planCtx s)). \<forall>nd. ReplicaInfo it = Inr nd \<longrightarrow> NodeID nd \<noteq> 0"
    using Cons.prems(3) by (simp_all add: validNodeIDs_def)
  from rangeLoop_cover[OF inner Cons.prems(2) gw ids]
  have inv1: "mapInv st1" and cov1: "\<And>k. cover k (allSpans (partitions st1)) =
      cover k (allSpans (partitions st)) + (if Key s \<le> k \<and> k < EndKey s then 1 else 0)"
    by simp_all
  have v': "validNodeIDs dsp planCtx rest" using Cons.prems(3) by (simp add: validNodeIDs_def)
  have g': "globalKeys dsp rest" using Cons.prems(4) by (simp add: globalKeys_def)
  from Cons.IH[OF outer inv1 v' g']
  have "mapInv st'" and "\<And>k. cover k (allSpans (partitions st')) =
      cover k (allSpans (partitions st1)) + cover k rest"
    by simp_all
  then show ?case using cov1 by (simp add: keysOf_def)
qed

lemma set_allSpans_update:
  assumes "i < length ps"
  shows "set (allSpans (ps[i := p])) \<subseteq> set (allSpans ps) \<union> set (spans p)"
proof
  fix s assume "s \<in> set (allSpans (ps[i := p]))"
  then obtain q where q: "q \<in> set (ps[i := p])" "s \<in> set (spans q)"
    by (auto simp: allSpans_def)
  then have "q = p \<or> q \<in> set ps"
    using set_update_subset_insert[of ps i p] by auto
  then show "s \<in> set (allSpans ps) \<union> set (spans p)"
    using q(2) by (auto simp: allSpans_def)
qed

lemma ascending_snoc:
  "ascending (ss @ [s]) \<longleftrightarrow> ascending ss \<and> (\<forall>x\<in>set ss. EndKey x \<le> Key s)"
  by (auto simp: ascending_sorted_wrt sorted_wrt_append)

lemma ascending_extend_last:
  assumes "ascending ss" "ss \<noteq> []"
  shows "ascending (butlast ss @ [(last ss)\<lparr>EndKey := ek\<rparr>])"
proof -
  have "ascending (butlast ss @ [last ss])" using assms by simp
  then show ?thesis by (simp add: ascending_snoc)
qed

lemma rangeStep_ascending:
  assumes step: "rangeStep dsp rspan it lastNodeID lastKey st = Inr (n, ek, st')"
      and inv: "mapInv st"
      and asc: "\<forall>p\<in>set (partitions st). ascending (spans p)"
      and bnd: "\<forall>s\<in>set (allSpans (partitions st)). EndKey s \<le> lastKey"
  shows "(\<forall>p\<in>set (partitions st'). ascending (spans p)) \<and>
         (\<forall>s\<in>set (allSpans (partitions st')). s \<in> set (allSpans (partitions st)) \<or> EndKey s = ek)"
proof -
  from step obtain nd i st1 where
    ch: "chooseNode dsp nd st = (n, i, st1)" and
    ap: "addPiece i (lastNodeID = n) lastKey ek st1 = Inr st'"
    by (rule rangeStep_result)
  note c1 = mapInv_chooseNode[OF ch inv]
  note a1 = addPiece_result[OF ap]
  let ?ss = "spans (partitions st1 ! i)"
  let ?new = "(if lastNodeID = n then butlast ?ss @ [(last ?ss)\<lparr>EndKey := ek\<rparr>]
               else ?ss @ [\<lparr>Key = lastKey, EndKey = ek\<rparr>])"
  have parts': "partitions st' = (partitions st1)[i := (partitions st1 ! i)\<lparr>spans := ?new\<rparr>]"
    using a1 by simp
  have ilen: "i < length (partitions st1)" using a1 by simp
  have asc1: "\<forall>p\<in>set (partitions st1). ascending (spans p)"
    using chooseNode_result[OF ch] asc by (auto simp: ascending_def)
  have all1: "allSpans (partitions st1) = allSpans (partitions st)" using c1 by simp
  have ss_sub: "set ?ss \<subseteq> set (allSpans (partitions st1))"
    using nth_mem[OF ilen] by (auto simp: allSpans_def)
  have ss_asc: "ascending ?ss" using asc1 ilen by simp
  have ss_bnd: "\<forall>x\<in>set ?ss. EndKey x \<le> lastKey" using ss_sub all1 bnd by auto
  have new_asc: "ascending ?new"
  proof (cases "lastNodeID = n")
    case True
    then have "?ss \<noteq> []" using a1 by simp
    then show ?thesis using True ascending_extend_last[OF ss_asc] by simp
  next
    case False
    then show ?thesis using ss_asc ss_bnd by (simp add: ascending_snoc)
  qed
  have new_set: "\<forall>s\<in>set ?new. s \<in> set ?ss \<or> EndKey s = ek"
    by (auto dest: in_set_butlastD)
  have A: "\<forall>p\<in>set (partitions st'). ascending (spans p)"
  proof
    fix p assume "p \<in> set (partitions st')"
    then have "p = (partitions st1 ! i)\<lparr>spans := ?new\<rparr> \<or> p \<in> set (partitions st1)"
      unfolding parts' using set_update_subset_insert[of "partitions st1" i] by blast
    then show "ascending (spans p)" using new_asc asc1 by auto
  qed
  have B: "\<forall>s\<in>set (allSpans (partitions st')). s \<in> set (allSpans (partitions st)) \<or> EndKey s = ek"
  proof
    fix s assume "s \<in> set (allSpans (partitions st'))"
    then have "s \<in> set (allSpans (partitions st1)) \<or> s \<in> set ?new"
      unfolding parts' using set_allSpans_update[OF ilen, of "(partitions st1 ! i)\<lparr>spans := ?new\<rparr>"]
      by auto
    then show "s \<in> set (allSpans (partitions st)) \<or> EndKey s = ek"
      using new_set ss_sub all1 by auto
  qed
  show ?thesis using A B by blast
qed

lemma rangeLoop_ascending:
  assumes "rangeLoop dsp rspan itErr its lastNodeID lastKey st = Inr st'"
      and "mapInv st"
      and "NodeID (nodeDesc dsp) \<noteq> 0"
      and "\<forall>it\<in>set its. \<forall>nd. ReplicaInfo it = Inr nd \<longrightarrow> NodeID nd \<noteq> 0"
      and "lastNodeID = 0 \<or> (linked st lastNodeID lastKey \<and> lastKey < EndKey rspan)"
      and "\<forall>p\<in>set (partitions st). ascending (spans p)"
      and "\<forall>s\<in>set (allSpans (partitions st)). EndKey s \<le> lastKey"
  shows "(\<forall>p\<in>set (partitions st'). ascending (spans p)) \<and>
         (\<forall>s\<in>set (allSpans (partitions st')).
             s \<in> set (allSpans (partitions st)) \<or> EndKey s \<le> EndKey rspan)"
  using assms
proof (induction its arbitrary: lastNodeID lastKey st)
  case Nil
  then show ?case by simp
next
  case (Cons it its)
  from Cons.prems(1) obtain n ek st2 where
    step: "rangeStep dsp rspan it lastNodeID lastKey st = Inr (n, ek, st2)"
    by (auto split: sum.splits)
  note keys = rangeStep_keys[OF step]
  have nz: "n \<noteq> 0" using keys Cons.prems(3,4) by auto
  have st2: "mapInv st2" and lnk2: "ek < EndKey rspan \<Longrightarrow> linked st2 n ek"
    using rangeStep_cover[OF step Cons.prems(2) nz Cons.prems(5), of undefined] by blast+
  from rangeStep_ascending[OF step Cons.prems(2) Cons.prems(6) Cons.prems(7)]
  have asc2: "\<forall>p\<in>set (partitions st2). ascending (spans p)"
    and new2: "\<forall>s\<in>set (allSpans (partitions st2)). s \<in> set (allSpans (partitions st)) \<or> EndKey s = ek"
    by blast+
  have ekle: "ek \<le> EndKey rspan" using keys by blast
  show ?case
  proof (cases "ek < EndKey rspan")
    case False
    then have "st' = st2" using Cons.prems(1) step by simp
    then show ?thesis using asc2 new2 ekle by auto
  next
    case True
    then have rec: "rangeLoop dsp rspan itErr its n ek st2 = Inr st'"
      using Cons.prems(1) step by simp
    have ids: "\<forall>it\<in>set its. \<forall>nd. ReplicaInfo it = Inr nd \<longrightarrow> NodeID nd \<noteq> 0"
      using Cons.prems(4) by simp
    have l: "n = 0 \<or> (linked st2 n ek \<and> ek < EndKey rspan)"
      using lnk2 True by simp
    have lt: "lastKey < ek" using keys True by blast
    have bnd2: "\<forall>s\<in>set (allSpans (partitions st2)). EndKey s \<le> ek"
    proof
      fix s assume "s \<in> set (allSpans (partitions st2))"
      then consider "s \<in> set (allSpans (partitions st))" | "EndKey s = ek"
        using new2 by blast
      then show "EndKey s \<le> ek"
      proof cases
        case 1
        then have "EndKey s \<le> lastKey" using Cons.prems(7) by blast
        then show ?thesis using lt by order
      next
        case 2
        then show ?thesis by simp
      qed
    qed
    from Cons.IH[OF rec st2 Cons.prems(3) ids l asc2 bnd2]
    have "\<forall>p\<in>set (partitions st'). ascending (spans p)"
      and "\<forall>s\<in>set (allSpans (partitions st')).
             s \<in> set (allSpans (partitions st2)) \<or> EndKey s \<le> EndKey rspan"
      by blast+
    then show ?thesis using new2 ekle by auto
  qed
qed

lemma spanLoop_ascending:
  assumes "spanLoop dsp (spanIter planCtx) spns st = Inr st'"
      and "mapInv st"
      and "validNodeIDs dsp planCtx spns"
      and "globalKeys dsp spns"
      and "ascending spns"
      and "\<forall>p\<in>set (partitions st). ascending (spans p)"
      and "\<forall>s\<in>set (allSpans (partitions st)). \<forall>u\<in>set spns. EndKey s \<le> Key u"
  shows "\<forall>p\<in>set (partitions st'). ascending (spans p)"
  using assms
proof (induction spns arbitrary: st)
  case Nil
  then show ?case by simp
next
  case (Cons s rest)
  have ks: "keysAddr dsp (Key s) = Inr (Key s)" "keysAddr dsp (EndKey s) = Inr (EndKey s)"
    using Cons.prems(4) by (simp_all add: globalKeys_def)
  have rs: "\<lparr>Key = Key s, EndKey = EndKey s\<rparr> = s" by simp
  from Cons.prems(1) obtain st1 where
    inner: "rangeLoop dsp s (snd (spanIter planCtx s)) (fst (spanIter planCtx s)) 0 (Key s) st = Inr st1"
    and outer: "spanLoop dsp (spanIter planCtx) rest st1 = Inr st'"
    by (auto simp: ks rs split: sum.splits)
  have gw: "NodeID (nodeDesc dsp) \<noteq> 0"
    and ids: "\<forall>it\<in>set (fst (spanIter planCtx s)). \<forall>nd. ReplicaInfo it = Inr nd \<longrightarrow> NodeID nd \<noteq> 0"
    using Cons.prems(3) by (simp_all add: validNodeIDs_def)
  have inv1: "mapInv st1"
    using rangeLoop_cover[OF inner Cons.prems(2) gw ids] by simp
  have bnd: "\<forall>x\<in>set (allSpans (partitions st)). EndKey x \<le> Key s"
    using Cons.prems(7) by simp
  from rangeLoop_ascending[OF inner Cons.prems(2) gw ids _ Cons.prems(6) bnd]
  have asc1: "\<forall>p\<in>set (partitions st1). ascending (spans p)"
    and new1: "\<forall>x\<in>set (allSpans (partitions st1)).
                 x \<in> set (allSpans (partitions st)) \<or> EndKey x \<le> EndKey s"
    by simp_all
  have srest: "\<forall>u\<in>set rest. EndKey s \<le> Key u" and arest: "ascending rest"
    using Cons.prems(5) by (simp_all add: ascending_sorted_wrt)
  have bnd1: "\<forall>x\<in>set (allSpans (partitions st1)). \<forall>u\<in>set rest. EndKey x \<le> Key u"
  proof (intro ballI)
    fix x u assume x: "x \<in> set (allSpans (partitions st1))" and u: "u \<in> set rest"
    from x consider "x \<in> set (allSpans (partitions st))" | "EndKey x \<le> EndKey s"
      using new1 by blast
    then show "EndKey x \<le> Key u"
    proof cases
      case 1
      then show ?thesis using Cons.prems(7) u by simp
    next
      case 2
      moreover have "EndKey s \<le> Key u" using srest u by blast
      ultimately show ?thesis by order
    qed
  qed
  have v': "validNodeIDs dsp planCtx rest" using Cons.prems(3) by (simp add: validNodeIDs_def)
  have g': "globalKeys dsp rest" using Cons.prems(4) by (simp add: globalKeys_def)
  show ?case by (rule Cons.IH[OF outer inv1 v' g' arest asc1 bnd1])
qed

lemmas partition_eval =
  partitionSpans_def rangeStep_def chooseNode_def lookupAddr_def lookupCompat_def addPiece_def
  checkNodeHealth_def nodeVersionIsCompatible_def FlowVerIsCompatible_def ContainsKey_def
  Let_def exRange_def exRanges_def exDsp_def exCtx_def

lemma usableInv_chooseNode:
  assumes ch: "chooseNode dsp nd st = (n, i, st1)" and inv: "usableInv dsp st"
  shows "usableInv dsp st1"
proof (cases "nodeMap st (NodeID nd)")
  case (Some j)
  then show ?thesis using ch inv by (simp add: chooseNode_def)
next
  case None
  obtain addr sta where la: "lookupAddr dsp nd st = (addr, sta)" by (cases "lookupAddr dsp nd st")
  obtain compat stb where lc: "lookupCompat dsp (NodeID nd) addr sta = (compat, stb)"
    by (cases "lookupCompat dsp (NodeID nd) addr sta")
  have sta: "partitions sta = partitions st" "nodeMap sta = nodeMap st"
      "nodeVerCompatMap sta = nodeVerCompatMap st"
      "\<forall>m a. nodeAddrs st m = Some a \<longrightarrow> nodeAddrs sta m = Some a"
      "addr \<noteq> '''' \<longrightarrow> nodeAddrs sta (NodeID nd) = Some addr"
    using la by (auto simp: lookupAddr_def Let_def split: option.splits if_splits)
  have stb: "partitions stb = partitions sta" "nodeMap stb = nodeMap sta"
      "nodeAddrs stb = nodeAddrs sta"
      "\<forall>m c. nodeVerCompatMap stb m = Some c \<longrightarrow>
           c = nodeVersionIsCompatible dsp m (planVersion dsp)"
      "addr \<noteq> '''' \<longrightarrow> compat = nodeVersionIsCompatible dsp (NodeID nd) (planVersion dsp)"
    using lc inv sta(3)
    by (auto simp: lookupCompat_def Let_def usableInv_def split: option.splits if_splits)
  have invb: "usableInv dsp stb"
    unfolding usableInv_def
  proof (intro conjI allI impI)
    fix m j assume "nodeMap stb m = Some j"
    then have "nodeMap st m = Some j" using sta(2) stb(2) by simp
    then have "m = NodeID (nodeDesc dsp) \<or>
        ((\<exists>a. nodeAddrs st m = Some a \<and> a \<noteq> '''') \<and>
         nodeVersionIsCompatible dsp m (planVersion dsp))"
      using inv unfolding usableInv_def by blast
    then show "m = NodeID (nodeDesc dsp) \<or>
        ((\<exists>a. nodeAddrs stb m = Some a \<and> a \<noteq> '''') \<and>
         nodeVersionIsCompatible dsp m (planVersion dsp))"
      using sta(4) stb(3) by auto
  next
    fix m c assume "nodeVerCompatMap stb m = Some c"
    then show "c = nodeVersionIsCompatible dsp m (planVersion dsp)" using stb(4) by blast
  next
    fix j assume "j < length (partitions stb)"
    then have "j < length (partitions st)" using sta(1) stb(1) by simp
    then have "nodeMap st (node (partitions st ! j)) = Some j"
      using inv unfolding usableInv_def by blast
    then show "nodeMap stb (node (partitions stb ! j)) = Some j"
      using sta(1,2) stb(1,2) by simp
  qed
  let ?bad = "addr = '''' \<or> \<not> compat"
  let ?n = "if ?bad then NodeID (nodeDesc dsp) else NodeID nd"
  have good: "\<not> ?bad \<Longrightarrow> (\<exists>a. nodeAddrs stb (NodeID nd) = Some a \<and> a \<noteq> '''') \<and>
                 nodeVersionIsCompatible dsp (NodeID nd) (planVersion dsp)"
    using sta(5) stb(3,5) by auto
  show ?thesis
  proof (cases "nodeMap stb ?n")
    case (Some j)
    then have "?bad" using None sta(2) stb(2) by (auto split: if_splits)
    then have "st1 = stb" using ch None la lc Some by (simp add: chooseNode_def)
    then show ?thesis using invb by simp
  next
    case nm: None
    have st1: "st1 = stb\<lparr>partitions := partitions stb @ [\<lparr>node = ?n, spans = []\<rparr>],
                         nodeMap := (nodeMap stb)(?n \<mapsto> length (partitions stb))\<rparr>"
      using ch None la lc nm by (auto simp: chooseNode_def Let_def split: if_splits)
    have a: "\<forall>m j. nodeMap st1 m = Some j \<longrightarrow>
              m = NodeID (nodeDesc dsp) \<or>
              ((\<exists>a. nodeAddrs st1 m = Some a \<and> a \<noteq> '''') \<and>
               nodeVersionIsCompatible dsp m (planVersion dsp))"
    proof (intro allI impI)
      fix m j assume mj: "nodeMap st1 m = Some j"
      show "m = NodeID (nodeDesc dsp) \<or>
              ((\<exists>a. nodeAddrs st1 m = Some a \<and> a \<noteq> '''') \<and>
               nodeVersionIsCompatible dsp m (planVersion dsp))"
      proof (cases "m = ?n")
        case True
        then show ?thesis using good st1 by (cases ?bad) auto
      next
        case False
        then have "nodeMap stb m = Some j" using mj st1 by simp
        then show ?thesis using invb st1 by (auto simp: usableInv_def)
      qed
    qed
    have b: "\<forall>m c. nodeVerCompatMap st1 m = Some c \<longrightarrow>
               c = nodeVersionIsCompatible dsp m (planVersion dsp)"
      using stb(4) st1 by simp
    have c: "\<forall>j < length (partitions st1). nodeMap st1 (node (partitions st1 ! j)) = Some j"
    proof (intro allI impI)
      fix j assume j: "j < length (partitions st1)"
      show "nodeMap st1 (node (partitions st1 ! j)) = Some j"
      proof (cases "j < length (partitions stb)")
        case True
        then have old: "nodeMap stb (node (partitions stb ! j)) = Some j"
          using invb by (simp add: usableInv_def)
        then have "node (partitions stb ! j) \<noteq> ?n" using nm by auto
        then show ?thesis using old True st1 by (simp add: nth_append)
      next
        case False
        then have "j = length (partitions stb)" using j st1 by simp
        then show ?thesis using st1 by simp
      qed
    qed
    show ?thesis unfolding usableInv_def using a b c by blast
  qed
qed

lemma usableInv_addPiece:
  assumes "addPiece i same lk ek st1 = Inr st'" "usableInv dsp st1"
  shows "usableInv dsp st'"
  using addPiece_result[OF assms(1)] assms(2)
  by (auto simp: usableInv_def nth_list_update)

lemma reachable_inv:
  assumes "reachable dsp planCtx st"
  shows "mapInv st \<and> usableInv dsp st"
  using assms
proof (induction rule: reachable.induct)
  case start
  show ?case by (simp add: mapInv_def usableInv_def)
next
  case (step st rspan it lastNodeID lastKey nodeID endKey st')
  from step.hyps(2) obtain nd i st1 where
    ch: "chooseNode dsp nd st = (nodeID, i, st1)" and
    ap: "addPiece i (lastNodeID = nodeID) lastKey endKey st1 = Inr st'"
    by (rule rangeStep_result)
  have "mapInv st1" using mapInv_chooseNode[OF ch] step.IH by blast
  then have "mapInv st'" by (rule mapInv_addPiece[OF ap])
  moreover have "usableInv dsp st1" using usableInv_chooseNode[OF ch] step.IH by blast
  then have "usableInv dsp st'" by (rule usableInv_addPiece[OF ap])
  ultimately show ?case by blast
qed

lemma initial_invariants:
  "mapInv \<lparr>partitions = [], nodeMap = Map.empty, nodeVerCompatMap = Map.empty, nodeAddrs = a\<rparr>"
  by (simp add: mapInv_def)

theorem partitionSpans_partitions_input:
  assumes run: "partitionSpans dsp planCtx spns = Inr (parts, planCtx')"
      and ids: "validNodeIDs dsp planCtx spns"
      and glob: "globalKeys dsp spns"
  shows "(\<Union>s\<in>set (allSpans parts). keysOf s) = (\<Union>s\<in>set spns. keysOf s) \<and>
         (nonOverlapping spns \<longrightarrow> nonOverlapping (allSpans parts)) \<and>
         (ascending spns \<longrightarrow> (\<forall>p\<in>set parts. ascending (spans p)))"
proof -
  let ?st0 = "\<lparr>partitions = [], nodeMap = Map.empty, nodeVerCompatMap = Map.empty,
               nodeAddrs = nodeAddresses planCtx\<rparr>"
  from run obtain st where
    loop: "spanLoop dsp (spanIter planCtx) spns ?st0 = Inr st" and parts: "parts = partitions st"
    by (auto simp: partitionSpans_def split: if_splits sum.splits)
  have inv0: "mapInv ?st0" by (rule initial_invariants)
  have cov: "cover k (allSpans parts) = cover k spns" for k
    using spanLoop_cover[OF loop inv0 ids glob] parts by (simp add: allSpans_def)
  have union: "(\<Union>s\<in>set (allSpans parts). keysOf s) = (\<Union>s\<in>set spns. keysOf s)"
  proof (rule set_eqI)
    fix k
    show "k \<in> (\<Union>s\<in>set (allSpans parts). keysOf s) \<longleftrightarrow> k \<in> (\<Union>s\<in>set spns. keysOf s)"
      using cover_pos_iff[of k "allSpans parts"] cover_pos_iff[of k spns] cov[of k] by simp
  qed
  have disj: "nonOverlapping (allSpans parts)" if "nonOverlapping spns"
    using that by (simp add: nonOverlapping_cover cov)
  have asc: "\<forall>p\<in>set parts. ascending (spans p)" if "ascending spns"
    using spanLoop_ascending[OF loop inv0 ids glob that] parts by (simp add: allSpans_def)
  show ?thesis using union disj asc by blast
qed

lemma exSpans_run:
  "partitionSpans exDsp exCtx exSpans =
     Inr ([\<lparr>node = 1, spans = [\<lparr>Key = ''b'', EndKey = ''d''\<rparr>, \<lparr>Key = ''k'', EndKey = ''m''\<rparr>]\<rparr>],
          exCtx)"
  by (simp add: partition_eval exSpans_def)

lemma exSpans_valid: "validNodeIDs exDsp exCtx exSpans \<and> globalKeys exDsp exSpans"
  by (simp add: validNodeIDs_def globalKeys_def exSpans_def exDsp_def exCtx_def exRanges_def
                exRange_def)

lemma keysOf_disjoint:
  assumes "EndKey a \<le> Key b"
  shows "keysOf a \<inter> keysOf b = {}"
proof -
  have False if "k < EndKey a" "Key b \<le> k" for k
    using that assms by order
  then show ?thesis by (auto simp: keysOf_def)
qed

lemma ascending_nonOverlapping: "ascending ss \<Longrightarrow> nonOverlapping ss"
  unfolding ascending_sorted_wrt nonOverlapping_sorted_wrt
  by (erule sorted_wrt_mono_rel[rotated]) (simp add: keysOf_disjoint)

lemma exSpans_sorted: "nonOverlapping exSpans \<and> ascending exSpans"
proof -
  have "ascending exSpans" by (simp add: ascending_sorted_wrt exSpans_def)
  then show ?thesis by (simp add: ascending_nonOverlapping)
qed

theorem partitionSpans_partitions_input_witness:
  "partitionSpans exDsp exCtx exSpans =
     Inr ([\<lparr>node = 1, spans = [\<lparr>Key = ''b'', EndKey = ''d''\<rparr>, \<lparr>Key = ''k'', EndKey = ''m''\<rparr>]\<rparr>],
          exCtx) \<and>
   validNodeIDs exDsp exCtx exSpans \<and> globalKeys exDsp exSpans \<and>
   nonOverlapping exSpans \<and> ascending exSpans \<and>
   (\<Union>s\<in>set (allSpans [\<lparr>node = 1, spans = [\<lparr>Key = ''b'', EndKey = ''d''\<rparr>,
                                                \<lparr>Key = ''k'', EndKey = ''m''\<rparr>]\<rparr>]). keysOf s)
     = (\<Union>s\<in>set exSpans. keysOf s) \<and>
   nonOverlapping (allSpans [\<lparr>node = 1, spans = [\<lparr>Key = ''b'', EndKey = ''d''\<rparr>,
                                                \<lparr>Key = ''k'', EndKey = ''m''\<rparr>]\<rparr>]) \<and>
   ascending [\<lparr>Key = ''b'', EndKey = ''d''\<rparr>, \<lparr>Key = ''k'', EndKey = ''m''\<rparr>]"
  using partitionSpans_partitions_input[OF exSpans_run conjunct1[OF exSpans_valid]
          conjunct2[OF exSpans_valid]]
        exSpans_run exSpans_valid exSpans_sorted
  by simp

theorem partitionSpans_unordered_counterexample:
  "partitionSpans exDsp exCtx exUnorderedSpans =
     Inr ([\<lparr>node = 1, spans = [\<lparr>Key = ''l'', EndKey = ''n''\<rparr>, \<lparr>Key = ''k'', EndKey = ''m''\<rparr>]\<rparr>],
          exCtx) \<and>
   exUnorderedSpans \<noteq> [] \<and>
   \<not> nonOverlapping (allSpans [\<lparr>node = 1, spans = [\<lparr>Key = ''l'', EndKey = ''n''\<rparr>,
                                                  \<lparr>Key = ''k'', EndKey = ''m''\<rparr>]\<rparr>]) \<and>
   \<not> ascending [\<lparr>Key = ''l'', EndKey = ''n''\<rparr>, \<lparr>Key = ''k'', EndKey = ''m''\<rparr>]"
proof -
  have run: "partitionSpans exDsp exCtx exUnorderedSpans =
     Inr ([\<lparr>node = 1, spans = [\<lparr>Key = ''l'', EndKey = ''n''\<rparr>, \<lparr>Key = ''k'', EndKey = ''m''\<rparr>]\<rparr>],
          exCtx)"
    by (simp add: partition_eval exUnorderedSpans_def)
  have "''l'' \<in> keysOf \<lparr>Key = ''l'', EndKey = ''n''\<rparr> \<inter> keysOf \<lparr>Key = ''k'', EndKey = ''m''\<rparr>"
    by (simp add: keysOf_def)
  then have ov: "\<not> nonOverlapping (allSpans [\<lparr>node = 1, spans = [\<lparr>Key = ''l'', EndKey = ''n''\<rparr>,
                                                  \<lparr>Key = ''k'', EndKey = ''m''\<rparr>]\<rparr>])"
    by (auto simp: nonOverlapping_sorted_wrt allSpans_def)
  have asc: "\<not> ascending [\<lparr>Key = ''l'', EndKey = ''n''\<rparr>, \<lparr>Key = ''k'', EndKey = ''m''\<rparr>]"
    by (simp add: ascending_sorted_wrt)
  show ?thesis using run ov asc by (simp add: exUnorderedSpans_def)
qed

end
